theory Spec2Isabelle
  imports Main "HOL-Library.Word" "HOL-Library.Multiset"
begin

section \<open>Strings of the host language\<close>

text \<open>
  The engine of \<^verbatim>\<open>client/src/lib/searchEngine.ts\<close> works on JavaScript strings, which are
  sequences of 16-bit code units. A string is modelled as a list of 16-bit words, so that
  the characters outside ASCII the code can receive are inputs of the model as well.
  \<open>js\<close> embeds an ASCII literal.
\<close>

type_synonym jschar = "16 word"
type_synonym jsstring = "jschar list"

definition js :: "string \<Rightarrow> jsstring" where
  "js s = map (\<lambda>c. of_nat (of_char c)) s"

text \<open>
  The white space of \<^verbatim>\<open>String.prototype.trim\<close> and of the regular expression class
  \<^verbatim>\<open>\s\<close> is the same set: WhiteSpace and LineTerminator of ECMAScript.
\<close>

definition is_space :: "jschar \<Rightarrow> bool" where
  "is_space c =
     (c = 0x09 \<or> c = 0x0A \<or> c = 0x0B \<or> c = 0x0C \<or> c = 0x0D \<or> c = 0x20 \<or> c = 0xA0
      \<or> c = 0x1680 \<or> (0x2000 \<le> c \<and> c \<le> 0x200A) \<or> c = 0x2028 \<or> c = 0x2029
      \<or> c = 0x202F \<or> c = 0x205F \<or> c = 0x3000 \<or> c = 0xFEFF)"

text \<open>\<^verbatim>\<open>s.trim()\<close>: white space removed at both ends.\<close>

definition trim :: "jsstring \<Rightarrow> jsstring" where
  "trim s = rev (dropWhile is_space (rev (dropWhile is_space s)))"

text \<open>\<^verbatim>\<open>s.startsWith(w)\<close> and \<^verbatim>\<open>s.includes(w)\<close>.\<close>

fun startsWith :: "jsstring \<Rightarrow> jsstring \<Rightarrow> bool" where
  "startsWith s [] = True"
| "startsWith [] (c # w) = False"
| "startsWith (x # s) (c # w) = (x = c \<and> startsWith s w)"

fun includes_str :: "jsstring \<Rightarrow> jsstring \<Rightarrow> bool" where
  "includes_str [] w = (w = [])"
| "includes_str (x # s) w = (startsWith (x # s) w \<or> includes_str s w)"

text \<open>
  \<^verbatim>\<open>String.prototype.toLowerCase\<close> is a built-in that follows the Unicode case tables. The
  engine's functions take it as the parameter \<open>lc\<close>, and the general theorems hold for
  every such function. \<open>toLowerCase\<close> below is the built-in on the strings made of ASCII and
  of the two code points outside ASCII whose lower case contains an ASCII letter
  (U+0130, which becomes \<^verbatim>\<open>i\<close> followed by U+0307, and U+212A KELVIN SIGN, which becomes
  \<^verbatim>\<open>k\<close>); it is used on concrete inputs of that kind only.
\<close>

definition lower_unit :: "jschar \<Rightarrow> jsstring" where
  "lower_unit c =
     (if 0x41 \<le> c \<and> c \<le> 0x5A then [c + 0x20]
      else if c = 0x0130 then [0x69, 0x0307]
      else if c = 0x212A then [0x6B]
      else [c])"

definition toLowerCase :: "jsstring \<Rightarrow> jsstring" where
  "toLowerCase s = concat (map lower_unit s)"

section \<open>The data model\<close>

text \<open>
  \<^verbatim>\<open>Problem\<close> of \<^verbatim>\<open>types/problem.ts\<close>, with the fields the engine reads. The difficulty is the
  union type \<^verbatim>\<open>'Easy' | 'Medium' | 'Hard'\<close>.
\<close>

datatype Difficulty = Easy | Medium | Hard

fun difficulty_str :: "Difficulty \<Rightarrow> jsstring" where
  "difficulty_str Easy = js ''Easy''"
| "difficulty_str Medium = js ''Medium''"
| "difficulty_str Hard = js ''Hard''"

record Problem =
  title :: jsstring
  frontend_id :: jsstring
  difficulty :: Difficulty
  topics :: "jsstring list"

text \<open>
  \<^verbatim>\<open>Map\<close> and \<^verbatim>\<open>Set\<close> iterate in insertion order: a \<^verbatim>\<open>Set\<close> is a list without duplicates
  that grows at the end, a \<^verbatim>\<open>Map\<close> is an association list that grows at the end.
\<close>

definition set_add :: "'a \<Rightarrow> 'a list \<Rightarrow> 'a list" where
  "set_add x s = (if x \<in> set s then s else s @ [x])"

type_synonym Index = "(jsstring \<times> nat list) list"

record ScoreEntry =
  score :: int
  matchedFields :: "string list"

type_synonym Scores = "(nat \<times> ScoreEntry) list"

record SearchResult =
  problem :: Problem
  result_score :: int
  result_fields :: "string list"

section \<open>The tokenizer\<close>

text \<open>
  \<^verbatim>\<open>text.split(/\s+/)\<close>: the pieces between the maximal runs of white space, the empty
  piece before a leading run and after a trailing run included.
\<close>

function split_ws :: "jsstring \<Rightarrow> jsstring \<Rightarrow> jsstring list" where
  "split_ws cur [] = [cur]"
| "split_ws cur (c # cs) =
     (if is_space c then cur # split_ws [] (dropWhile is_space cs)
      else split_ws (cur @ [c]) cs)"
  by pat_completeness auto
termination
  by (relation "measure (\<lambda>(cur, s). length s)")
     (auto simp: length_dropWhile_le less_Suc_eq_le)

text \<open>The class \<^verbatim>\<open>[^a-z0-9\s]\<close> is the complement of \<open>keeps\<close>.\<close>

definition keeps :: "jschar \<Rightarrow> bool" where
  "keeps c = ((0x61 \<le> c \<and> c \<le> 0x7A) \<or> (0x30 \<le> c \<and> c \<le> 0x39) \<or> is_space c)"

definition tokenize :: "(jsstring \<Rightarrow> jsstring) \<Rightarrow> jsstring \<Rightarrow> jsstring list" where
  "tokenize lc text =
     filter (\<lambda>word. length word > 0)
       (split_ws [] (map (\<lambda>c. if keeps c then c else 0x20) (lc text)))"

section \<open>Building the index\<close>

text \<open>
  The four-line idiom \<^verbatim>\<open>if (!index.has(w)) index.set(w, new Set()); index.get(w)!.add(idx)\<close>.
\<close>

fun index_add :: "jsstring \<Rightarrow> nat \<Rightarrow> Index \<Rightarrow> Index" where
  "index_add word idx [] = [(word, set_add idx [])]"
| "index_add word idx ((k, s) # rest) =
     (if k = word then (k, set_add idx s) # rest else (k, s) # index_add word idx rest)"

definition index_problem :: "(jsstring \<Rightarrow> jsstring) \<Rightarrow> nat \<times> Problem \<Rightarrow> Index \<Rightarrow> Index" where
  "index_problem lc = (\<lambda>(idx, p) index0.
     let index1 = fold (\<lambda>word. index_add word idx) (tokenize lc (title p)) index0;
         index2 = fold (\<lambda>topic. fold (\<lambda>word. index_add word idx) (tokenize lc topic))
                    (topics p) index1;
         diffWord = lc (difficulty_str (difficulty p));
         index3 = index_add diffWord idx index2
     in index_add (frontend_id p) idx index3)"

definition buildIndex :: "(jsstring \<Rightarrow> jsstring) \<Rightarrow> Problem list \<Rightarrow> Index" where
  "buildIndex lc problems = fold (index_problem lc) (enumerate 0 problems) []"

record Engine =
  problems :: "Problem list"
  index :: Index

definition new_engine :: "(jsstring \<Rightarrow> jsstring) \<Rightarrow> Problem list \<Rightarrow> Engine" where
  "new_engine lc ps = \<lparr>problems = ps, index = buildIndex lc ps\<rparr>"

section \<open>Search\<close>

text \<open>
  \<^verbatim>\<open>if (!scores.has(idx)) scores.set(idx, {score: 0, matchedFields: new Set()})\<close>, then the
  entry gains the points and the label.
\<close>

fun bump :: "int \<Rightarrow> string \<Rightarrow> nat \<Rightarrow> Scores \<Rightarrow> Scores" where
  "bump pts label idx [] = [(idx, \<lparr>score = 0 + pts, matchedFields = set_add label []\<rparr>)]"
| "bump pts label idx ((i, e) # rest) =
     (if i = idx
      then (i, \<lparr>score = score e + pts, matchedFields = set_add label (matchedFields e)\<rparr>) # rest
      else (i, e) # bump pts label idx rest)"

definition exact_step :: "Index \<Rightarrow> jsstring \<Rightarrow> Scores \<Rightarrow> Scores" where
  "exact_step ix word scores =
     (case map_of ix word of
        None \<Rightarrow> scores
      | Some indices \<Rightarrow> fold (bump 10 ''exact'') indices scores)"

definition prefix_step :: "Index \<Rightarrow> jsstring \<Rightarrow> Scores \<Rightarrow> Scores" where
  "prefix_step ix word scores =
     fold (\<lambda>(indexWord, indices) sc.
             if startsWith indexWord word \<and> indexWord \<noteq> word
             then fold (bump 5 ''prefix'') indices sc else sc) ix scores"

definition contains_step :: "Index \<Rightarrow> jsstring \<Rightarrow> Scores \<Rightarrow> Scores" where
  "contains_step ix word scores =
     fold (\<lambda>(indexWord, indices) sc.
             if includes_str indexWord word \<and> \<not> startsWith indexWord word
             then fold (bump 2 ''contains'') indices sc else sc) ix scores"

definition search_word :: "Index \<Rightarrow> jsstring \<Rightarrow> Scores \<Rightarrow> Scores" where
  "search_word ix word scores =
     contains_step ix word (prefix_step ix word (exact_step ix word scores))"

definition accumulate :: "Index \<Rightarrow> jsstring list \<Rightarrow> Scores" where
  "accumulate ix queryWords = fold (search_word ix) queryWords []"

text \<open>
  \<^verbatim>\<open>xs.slice(0, n)\<close> for an integer \<open>n\<close>: a negative end counts from the end of the array.
\<close>

definition slice0 :: "'a list \<Rightarrow> int \<Rightarrow> 'a list" where
  "slice0 xs n = (if n < 0 then take (nat (int (length xs) + n)) xs else take (nat n) xs)"

text \<open>
  \<^verbatim>\<open>this.problems[idx]\<close> reads the record at a position taken from the index. Every such
  position is below the number of records (\<open>buildIndex_in_range\<close> below), so the read is
  never out of range.
\<close>

definition to_result :: "Problem list \<Rightarrow> nat \<times> ScoreEntry \<Rightarrow> SearchResult" where
  "to_result ps = (\<lambda>(idx, e).
     \<lparr>problem = ps ! idx, result_score = score e, result_fields = matchedFields e\<rparr>)"

text \<open>
  \<^verbatim>\<open>Array.prototype.sort\<close> with the comparator \<^verbatim>\<open>b.score - a.score\<close> is a stable sort by
  descending score.
\<close>

definition ranked :: "Engine \<Rightarrow> jsstring list \<Rightarrow> SearchResult list" where
  "ranked eng queryWords =
     sort_key (\<lambda>r. - result_score r)
       (map (to_result (problems eng)) (accumulate (index eng) queryWords))"

definition search :: "(jsstring \<Rightarrow> jsstring) \<Rightarrow> Engine \<Rightarrow> jsstring \<Rightarrow> int \<Rightarrow> SearchResult list" where
  "search lc eng query maxResults =
     (if trim query = [] then []
      else slice0 (ranked eng (tokenize lc query)) maxResults)"

section \<open>Autocomplete\<close>

text \<open>
  The first loop adds the matching titles to the \<^verbatim>\<open>Set\<close> of suggestions, the second the
  matching topics; \<open>suggestions\<close> is the \<^verbatim>\<open>Set\<close> after both, in insertion order.
\<close>

definition title_pass :: "(jsstring \<Rightarrow> jsstring) \<Rightarrow> jsstring \<Rightarrow> Problem list \<Rightarrow> jsstring list \<Rightarrow> jsstring list" where
  "title_pass lc queryLower ps suggestions =
     fold (\<lambda>p s. if includes_str (lc (title p)) queryLower then set_add (title p) s else s)
       ps suggestions"

definition topic_pass :: "(jsstring \<Rightarrow> jsstring) \<Rightarrow> jsstring \<Rightarrow> Problem list \<Rightarrow> jsstring list \<Rightarrow> jsstring list" where
  "topic_pass lc queryLower ps suggestions =
     fold (\<lambda>p. fold (\<lambda>topic s. if includes_str (lc topic) queryLower then set_add topic s else s)
                  (topics p))
       ps suggestions"

definition suggestions :: "(jsstring \<Rightarrow> jsstring) \<Rightarrow> Engine \<Rightarrow> jsstring \<Rightarrow> jsstring list" where
  "suggestions lc eng query =
     (let queryLower = lc query
      in topic_pass lc queryLower (problems eng) (title_pass lc queryLower (problems eng) []))"

definition autocomplete :: "(jsstring \<Rightarrow> jsstring) \<Rightarrow> Engine \<Rightarrow> jsstring \<Rightarrow> int \<Rightarrow> jsstring list" where
  "autocomplete lc eng query maxSuggestions =
     (if trim query = [] then []
      else slice0 (suggestions lc eng query) maxSuggestions)"

section \<open>Statistics\<close>

text \<open>\<^verbatim>\<open>getStats\<close>; \<^verbatim>\<open>index.size\<close> is the number of entries of the \<^verbatim>\<open>Map\<close>.\<close>

record Stats =
  totalProblems :: nat
  indexSize :: nat
  easy :: nat
  medium :: nat
  hard :: nat

definition getStats :: "Engine \<Rightarrow> Stats" where
  "getStats eng =
     \<lparr>totalProblems = length (problems eng),
      indexSize = length (index eng),
      easy = length (filter (\<lambda>p. difficulty p = Easy) (problems eng)),
      medium = length (filter (\<lambda>p. difficulty p = Medium) (problems eng)),
      hard = length (filter (\<lambda>p. difficulty p = Hard) (problems eng))\<rparr>"

section \<open>Notions used to state the properties\<close>

subsection \<open>The index as a relation between keys and record positions\<close>

text \<open>
  \<open>posting ix t\<close> is the set of positions stored under the key \<open>t\<close> (empty when \<open>t\<close> is
  not a key); \<open>index_ok\<close> says that the association list is a \<^verbatim>\<open>Map\<close> of non-empty
  \<^verbatim>\<open>Set\<close>s; \<open>key_source lc p t\<close> says that indexing the record \<open>p\<close> adds its position
  under \<open>t\<close>.
\<close>

definition posting :: "Index \<Rightarrow> jsstring \<Rightarrow> nat set" where
  "posting ix t = (case map_of ix t of None \<Rightarrow> {} | Some s \<Rightarrow> set s)"

definition index_ok :: "Index \<Rightarrow> bool" where
  "index_ok ix = (distinct (map fst ix) \<and> list_all (\<lambda>(k, s). s \<noteq> [] \<and> distinct s) ix)"

definition key_source :: "(jsstring \<Rightarrow> jsstring) \<Rightarrow> Problem \<Rightarrow> jsstring \<Rightarrow> bool" where
  "key_source lc p t =
     (t \<in> set (tokenize lc (title p))
      \<or> list_ex (\<lambda>topic. t \<in> set (tokenize lc topic)) (topics p)
      \<or> t = lc (difficulty_str (difficulty p))
      \<or> t = frontend_id p)"

subsection \<open>The score a position is expected to reach\<close>

text \<open>
  The three rules, read off the index alone: the exact rule fires when the position is
  stored under the query word itself; \<open>prefix_keys\<close> and \<open>contains_keys\<close> list the keys of
  the index that hold the position and satisfy the prefix, respectively the contains,
  condition. \<open>score_at\<close> and \<open>fields_at\<close> read the accumulator at a position, with
  score 0 and no label where the position has no entry. \<open>rule_fold\<close> is the common shape
  of the two scans over the whole index.
\<close>

definition score_at :: "Scores \<Rightarrow> nat \<Rightarrow> int" where
  "score_at sc i = (case map_of sc i of None \<Rightarrow> 0 | Some e \<Rightarrow> score e)"

definition fields_at :: "Scores \<Rightarrow> nat \<Rightarrow> string list" where
  "fields_at sc i = (case map_of sc i of None \<Rightarrow> [] | Some e \<Rightarrow> matchedFields e)"

definition exact_fires :: "Index \<Rightarrow> jsstring \<Rightarrow> nat \<Rightarrow> bool" where
  "exact_fires ix w i = (i \<in> posting ix w)"

definition prefix_keys :: "Index \<Rightarrow> jsstring \<Rightarrow> nat \<Rightarrow> jsstring list" where
  "prefix_keys ix w i =
     filter (\<lambda>k. (startsWith k w \<and> k \<noteq> w) \<and> i \<in> posting ix k) (map fst ix)"

definition contains_keys :: "Index \<Rightarrow> jsstring \<Rightarrow> nat \<Rightarrow> jsstring list" where
  "contains_keys ix w i =
     filter (\<lambda>k. (includes_str k w \<and> \<not> startsWith k w) \<and> i \<in> posting ix k) (map fst ix)"

definition word_points :: "Index \<Rightarrow> jsstring \<Rightarrow> nat \<Rightarrow> int" where
  "word_points ix w i =
     (if exact_fires ix w i then 10 else 0)
     + 5 * int (length (prefix_keys ix w i))
     + 2 * int (length (contains_keys ix w i))"

definition expected_score :: "Index \<Rightarrow> jsstring list \<Rightarrow> nat \<Rightarrow> int" where
  "expected_score ix ws i = sum_list (map (\<lambda>w. word_points ix w i) ws)"

definition expected_labels :: "Index \<Rightarrow> jsstring list \<Rightarrow> nat \<Rightarrow> string set" where
  "expected_labels ix ws i =
     (if list_ex (\<lambda>w. exact_fires ix w i) ws then {''exact''} else {})
     \<union> (if list_ex (\<lambda>w. prefix_keys ix w i \<noteq> []) ws then {''prefix''} else {})
     \<union> (if list_ex (\<lambda>w. contains_keys ix w i \<noteq> []) ws then {''contains''} else {})"

definition rule_fold :: "(jsstring \<Rightarrow> bool) \<Rightarrow> int \<Rightarrow> string \<Rightarrow> Index \<Rightarrow> Scores \<Rightarrow> Scores" where
  "rule_fold Q pts l ix scores =
     fold (\<lambda>(k, s) sc. if Q k then fold (bump pts l) s sc else sc) ix scores"

subsection \<open>Autocomplete as the text describes it\<close>

text \<open>
  \<open>keep_first\<close> suppresses duplicates and keeps the first occurrence; \<open>matching\<close> selects the
  strings whose lower-case form contains the lower-case query; \<open>autocomplete_spec\<close> lists the
  matching titles, then the matching topics, without duplicates, and keeps the first
  \<open>n\<close> of them. These follow the prose description and are compared with the code below.
\<close>

function keep_first :: "'a list \<Rightarrow> 'a list" where
  "keep_first [] = []"
| "keep_first (x # xs) = x # keep_first (removeAll x xs)"
  by pat_completeness auto
termination
  by (relation "measure length") (auto simp: length_removeAll_less_eq less_Suc_eq_le)

definition matching :: "(jsstring \<Rightarrow> jsstring) \<Rightarrow> jsstring \<Rightarrow> jsstring list \<Rightarrow> jsstring list" where
  "matching lc query ts = filter (\<lambda>t. includes_str (lc t) (lc query)) ts"

definition autocomplete_spec :: "(jsstring \<Rightarrow> jsstring) \<Rightarrow> Problem list \<Rightarrow> jsstring \<Rightarrow> int \<Rightarrow> jsstring list" where
  "autocomplete_spec lc ps query n =
     take (nat n)
       (keep_first (matching lc query (map title ps) @ matching lc query (concat (map topics ps))))"

subsection \<open>Queries without letters or digits\<close>

text \<open>
  \<open>lower_alnum\<close> is the class \<^verbatim>\<open>[a-z0-9]\<close>, \<open>ascii_alnum\<close> the ASCII letters and digits;
  a query is \<open>visible\<close> when one of its characters is not white space.
\<close>

definition lower_alnum :: "jschar \<Rightarrow> bool" where
  "lower_alnum c = ((0x61 \<le> c \<and> c \<le> 0x7A) \<or> (0x30 \<le> c \<and> c \<le> 0x39))"

definition ascii_alnum :: "jschar \<Rightarrow> bool" where
  "ascii_alnum c = ((0x41 \<le> c \<and> c \<le> 0x5A) \<or> lower_alnum c)"

definition visible :: "jsstring \<Rightarrow> bool" where
  "visible query = list_ex (\<lambda>c. \<not> is_space c) query"

definition no_ascii_alnum :: "jsstring \<Rightarrow> bool" where
  "no_ascii_alnum query = list_all (\<lambda>c. \<not> ascii_alnum c) query"

section \<open>Example data\<close>

definition two_sum :: Problem where
  "two_sum = \<lparr>title = js ''Two Sum'', frontend_id = js ''1'', difficulty = Easy,
               topics = [js ''Array'', js ''Hash Table'']\<rparr>"

definition number_of_islands :: Problem where
  "number_of_islands = \<lparr>title = js ''Number of Islands'', frontend_id = js ''200'',
               difficulty = Medium, topics = [js ''Graph'']\<rparr>"

definition three_sum :: Problem where
  "three_sum = \<lparr>title = js ''Three Sum'', frontend_id = js ''15'', difficulty = Medium,
               topics = [js ''Array'']\<rparr>"

definition top_k :: Problem where
  "top_k = \<lparr>title = js ''Top K Elements'', frontend_id = js ''347'', difficulty = Medium,
               topics = [js ''Heap'']\<rparr>"

definition demo_engine :: Engine where
  "demo_engine = new_engine toLowerCase [two_sum, number_of_islands]"

definition sums_engine :: Engine where
  "sums_engine = new_engine toLowerCase [two_sum, three_sum]"

definition top_k_engine :: Engine where
  "top_k_engine = new_engine toLowerCase [top_k]"

definition kelvin_query :: jsstring where
  "kelvin_query = [0x212A]"

definition empty_engine :: Engine where
  "empty_engine = new_engine toLowerCase []"

section \<open>Strings, slices and sorting\<close>

lemma dropWhile_all_iff: "(\<forall>c\<in>set (dropWhile P s). P c) \<longleftrightarrow> (\<forall>c\<in>set s. P c)"
  by (induction s) auto

lemma trim_empty_iff: "trim s = [] \<longleftrightarrow> (\<forall>c\<in>set s. is_space c)"
proof -
  have "trim s = [] \<longleftrightarrow> dropWhile is_space (rev (dropWhile is_space s)) = []"
    by (simp add: trim_def)
  also have "\<dots> \<longleftrightarrow> (\<forall>c\<in>set (dropWhile is_space s). is_space c)"
    unfolding dropWhile_eq_Nil_conv by simp
  finally show ?thesis
    by (simp only: dropWhile_all_iff)
qed

lemma length_slice0: "0 \<le> n \<Longrightarrow> length (slice0 xs n) \<le> nat n"
  by (simp add: slice0_def)

lemma slice0_is_take: "\<exists>m. slice0 xs n = take m xs"
  by (auto simp: slice0_def)

lemma ranked_sorted: "sorted_wrt (\<lambda>a b. result_score b \<le> result_score a) (ranked eng ws)"
proof -
  have "sorted (map (\<lambda>r. - result_score r) (ranked eng ws))"
    unfolding ranked_def by (rule sorted_sort_key)
  then show ?thesis
    by (simp add: sorted_map sorted_wrt_iff_nth_less)
qed

lemma search_sorted: "sorted_wrt (\<lambda>a b. result_score b \<le> result_score a) (search lc eng query n)"
proof (cases "trim query = []")
  case True
  then show ?thesis by (simp add: search_def)
next
  case False
  obtain m where "slice0 (ranked eng (tokenize lc query)) n = take m (ranked eng (tokenize lc query))"
    using slice0_is_take by blast
  with False show ?thesis
    by (simp add: search_def sorted_wrt_take ranked_sorted)
qed

section \<open>The index after construction\<close>

lemma set_add_set [simp]: "set (set_add x s) = insert x (set s)"
  by (auto simp: set_add_def)

lemma set_add_distinct [simp]: "distinct (set_add x s) = distinct s"
  by (auto simp: set_add_def)

lemma set_add_nonempty [simp]: "set_add x s \<noteq> []"
  by (auto simp: set_add_def)

lemma keys_index_add:
  "map fst (index_add w i ix) = (if w \<in> fst ` set ix then map fst ix else map fst ix @ [w])"
  by (induction ix) force+

lemma index_add_ok: "index_ok ix \<Longrightarrow> index_ok (index_add w i ix)"
proof (induction ix)
  case Nil
  then show ?case by (simp add: index_ok_def)
next
  case (Cons a ix)
  obtain k s where a: "a = (k, s)" by (cases a)
  from Cons.prems have ok: "index_ok ix"
    by (simp add: index_ok_def)
  from Cons.IH [OF ok] Cons.prems show ?case
    by (auto simp: index_ok_def a keys_index_add)
qed

lemma posting_index_add:
  "posting (index_add w i ix) t = (if t = w then insert i (posting ix t) else posting ix t)"
  by (induction ix) (auto simp: posting_def)

lemma fold_index_add_ok:
  "index_ok ix \<Longrightarrow> index_ok (fold (\<lambda>w. index_add w i) ws ix)"
  by (induction ws arbitrary: ix) (simp_all add: index_add_ok)

lemma posting_fold_index_add:
  "posting (fold (\<lambda>w. index_add w i) ws ix) t
     = (if t \<in> set ws then insert i (posting ix t) else posting ix t)"
  by (induction ws arbitrary: ix) (auto simp: posting_index_add)

lemma fold_topics_ok:
  "index_ok ix \<Longrightarrow> index_ok (fold (\<lambda>topic. fold (\<lambda>w. index_add w i) (f topic)) ts ix)"
  by (induction ts arbitrary: ix) (simp_all add: fold_index_add_ok)

lemma posting_fold_topics:
  "posting (fold (\<lambda>topic. fold (\<lambda>w. index_add w i) (f topic)) ts ix) t
     = (if list_ex (\<lambda>topic. t \<in> set (f topic)) ts then insert i (posting ix t) else posting ix t)"
  by (induction ts arbitrary: ix) (auto simp: posting_fold_index_add)

lemma index_problem_ok: "index_ok ix \<Longrightarrow> index_ok (index_problem lc (i, p) ix)"
  by (simp add: index_problem_def Let_def index_add_ok fold_index_add_ok fold_topics_ok)

lemma posting_index_problem:
  "posting (index_problem lc (i, p) ix) t
     = (if key_source lc p t then insert i (posting ix t) else posting ix t)"
  by (auto simp: index_problem_def Let_def posting_index_add posting_fold_index_add
        posting_fold_topics key_source_def)

lemma fold_index_problem_ok:
  "index_ok ix \<Longrightarrow> index_ok (fold (index_problem lc) (enumerate n ps) ix)"
  by (induction ps arbitrary: n ix) (simp_all add: index_problem_ok)

lemma posting_fold_index_problem:
  "posting (fold (index_problem lc) (enumerate n ps) ix) t
     = posting ix t \<union> {n + j | j. j < length ps \<and> key_source lc (ps ! j) t}"
proof (induction ps arbitrary: n ix)
  case Nil
  then show ?case by simp
next
  case (Cons p ps)
  have "{n + j | j. j < length (p # ps) \<and> key_source lc ((p # ps) ! j) t}
      = (if key_source lc p t then {n} else {})
        \<union> {Suc n + j | j. j < length ps \<and> key_source lc (ps ! j) t}"
    (is "?L = ?R")
  proof (rule set_eqI)
    fix x
    show "x \<in> ?L \<longleftrightarrow> x \<in> ?R"
    proof
      assume "x \<in> ?L"
      then obtain j where j: "x = n + j" "j < length (p # ps)" "key_source lc ((p # ps) ! j) t"
        by blast
      then show "x \<in> ?R"
        by (cases j) auto
    next
      assume "x \<in> ?R"
      then consider "key_source lc p t" "x = n"
        | j where "x = Suc n + j" "j < length ps" "key_source lc (ps ! j) t"
        by (auto split: if_splits)
      then show "x \<in> ?L"
      proof cases
        case 1
        then have "x = n + 0 \<and> 0 < length (p # ps) \<and> key_source lc ((p # ps) ! 0) t"
          by simp
        then show ?thesis by blast
      next
        case 2
        then have "x = n + Suc j \<and> Suc j < length (p # ps) \<and> key_source lc ((p # ps) ! Suc j) t"
          by simp
        then show ?thesis by blast
      qed
    qed
  qed
  then show ?case
    by (auto simp: Cons.IH posting_index_problem)
qed

lemma buildIndex_ok: "index_ok (buildIndex lc ps)"
  unfolding buildIndex_def by (rule fold_index_problem_ok) (simp add: index_ok_def)

lemma posting_buildIndex:
  "i \<in> posting (buildIndex lc ps) t \<longleftrightarrow> i < length ps \<and> key_source lc (ps ! i) t"
  unfolding buildIndex_def posting_fold_index_problem by (auto simp: posting_def)

section \<open>The score accumulator\<close>

lemma map_of_bump:
  "map_of (bump pts l idx sc) i
     = (if i = idx
        then Some \<lparr>score = score_at sc idx + pts, matchedFields = set_add l (fields_at sc idx)\<rparr>
        else map_of sc i)"
  by (induction sc) (auto simp: score_at_def fields_at_def)

lemma keys_bump:
  "map fst (bump pts l idx sc) = (if idx \<in> fst ` set sc then map fst sc else map fst sc @ [idx])"
  by (induction sc) force+

lemma score_at_bump:
  "score_at (bump pts l idx sc) i = score_at sc i + (if i = idx then pts else 0)"
proof -
  have "score_at (bump pts l idx sc) i
          = (case map_of (bump pts l idx sc) i of None \<Rightarrow> 0 | Some e \<Rightarrow> score e)"
    by (simp only: score_at_def)
  also have "\<dots> = (if i = idx then score_at sc idx + pts else score_at sc i)"
    by (simp add: map_of_bump) (simp add: score_at_def)
  finally show ?thesis by simp
qed

lemma fields_at_bump:
  "set (fields_at (bump pts l idx sc) i) = set (fields_at sc i) \<union> (if i = idx then {l} else {})"
proof -
  have "fields_at (bump pts l idx sc) i
          = (case map_of (bump pts l idx sc) i of None \<Rightarrow> [] | Some e \<Rightarrow> matchedFields e)"
    by (simp only: fields_at_def)
  also have "\<dots> = (if i = idx then set_add l (fields_at sc idx) else fields_at sc i)"
    by (simp add: map_of_bump) (simp add: fields_at_def)
  finally show ?thesis by simp
qed

lemma distinct_bump: "distinct (map fst sc) \<Longrightarrow> distinct (map fst (bump pts l idx sc))"
  by (simp add: keys_bump)

lemma dom_bump: "fst ` set (bump pts l idx sc) = insert idx (fst ` set sc)"
  using keys_bump [of pts l idx sc, THEN arg_cong, of set] by (auto split: if_splits)

lemma score_at_fold_bump:
  "distinct s \<Longrightarrow>
   score_at (fold (bump pts l) s sc) i = score_at sc i + (if i \<in> set s then pts else 0)"
  by (induction s arbitrary: sc) (auto simp: score_at_bump)

lemma fields_at_fold_bump:
  "set (fields_at (fold (bump pts l) s sc) i)
     = set (fields_at sc i) \<union> (if i \<in> set s then {l} else {})"
  by (induction s arbitrary: sc) (auto simp: fields_at_bump)

lemma distinct_fold_bump:
  "distinct (map fst sc) \<Longrightarrow> distinct (map fst (fold (bump pts l) s sc))"
  by (induction s arbitrary: sc) (simp_all add: distinct_bump)

lemma dom_fold_bump: "fst ` set (fold (bump pts l) s sc) = fst ` set sc \<union> set s"
  by (induction s arbitrary: sc) (auto simp: dom_bump)

lemma index_ok_Cons: "index_ok ((k, s) # ix) \<Longrightarrow> index_ok ix \<and> distinct s \<and> s \<noteq> []"
  by (simp add: index_ok_def)

lemma index_ok_posting: "index_ok ix \<Longrightarrow> (k, s) \<in> set ix \<Longrightarrow> posting ix k = set s"
  by (simp add: index_ok_def posting_def)

lemma index_ok_distinct: "index_ok ix \<Longrightarrow> (k, s) \<in> set ix \<Longrightarrow> distinct s"
  by (auto simp: index_ok_def list_all_iff)

lemma score_at_rule_fold:
  "list_all (\<lambda>(k, s). distinct s) ix \<Longrightarrow>
   score_at (rule_fold Q pts l ix sc) i
     = score_at sc i + pts * int (length (filter (\<lambda>(k, s). Q k \<and> i \<in> set s) ix))"
proof (induction ix arbitrary: sc)
  case Nil
  then show ?case by (simp add: rule_fold_def)
next
  case (Cons a ix)
  obtain k s where a: "a = (k, s)" by (cases a)
  from Cons.prems have d: "distinct s" and rest: "list_all (\<lambda>(k, s). distinct s) ix"
    by (simp_all add: a)
  have step: "rule_fold Q pts l (a # ix) sc
      = rule_fold Q pts l ix (if Q k then fold (bump pts l) s sc else sc)"
    by (simp add: rule_fold_def a)
  show ?case
    unfolding step Cons.IH [OF rest]
    by (simp add: a score_at_fold_bump [OF d] algebra_simps)
qed

lemma fields_at_rule_fold:
  "set (fields_at (rule_fold Q pts l ix sc) i)
     = set (fields_at sc i) \<union> (if list_ex (\<lambda>(k, s). Q k \<and> i \<in> set s) ix then {l} else {})"
proof (induction ix arbitrary: sc)
  case Nil
  then show ?case by (simp add: rule_fold_def)
next
  case (Cons a ix)
  obtain k s where a: "a = (k, s)" by (cases a)
  have step: "rule_fold Q pts l (a # ix) sc
      = rule_fold Q pts l ix (if Q k then fold (bump pts l) s sc else sc)"
    by (simp add: rule_fold_def a)
  show ?case
    unfolding step Cons.IH
    by (auto simp: a fields_at_fold_bump)
qed

lemma distinct_rule_fold:
  "distinct (map fst sc) \<Longrightarrow> distinct (map fst (rule_fold Q pts l ix sc))"
proof (induction ix arbitrary: sc)
  case Nil
  then show ?case by (simp add: rule_fold_def)
next
  case (Cons a ix)
  obtain k s where a: "a = (k, s)" by (cases a)
  have step: "rule_fold Q pts l (a # ix) sc
      = rule_fold Q pts l ix (if Q k then fold (bump pts l) s sc else sc)"
    by (simp add: rule_fold_def a)
  show ?case
    unfolding step using Cons.prems
    by (intro Cons.IH) (simp add: distinct_fold_bump)
qed

lemma dom_rule_fold:
  assumes "\<forall>(k, s)\<in>set ix. set s \<subseteq> P" and "fst ` set sc \<subseteq> P"
  shows "fst ` set (rule_fold Q pts l ix sc) \<subseteq> P"
  using assms
proof (induction ix arbitrary: sc)
  case Nil
  then show ?case by (simp add: rule_fold_def)
next
  case (Cons a ix)
  obtain k s where a: "a = (k, s)" by (cases a)
  have step: "rule_fold Q pts l (a # ix) sc
      = rule_fold Q pts l ix (if Q k then fold (bump pts l) s sc else sc)"
    by (simp add: rule_fold_def a)
  from Cons.prems have s: "set s \<subseteq> P" and rest: "\<forall>(k, s)\<in>set ix. set s \<subseteq> P"
    by (simp_all add: a)
  from s Cons.prems(2)
  have "fst ` set (if Q k then fold (bump pts l) s sc else sc) \<subseteq> P"
    by (simp add: dom_fold_bump)
  with rest show ?case
    unfolding step by (rule Cons.IH)
qed

lemma entries_as_keys:
  assumes "index_ok ix"
  shows "map fst (filter (\<lambda>(k, s). Q k \<and> i \<in> set s) ix)
           = filter (\<lambda>k. Q k \<and> i \<in> posting ix k) (map fst ix)"
proof -
  have "filter (\<lambda>(k, s). Q k \<and> i \<in> set s) ix
          = filter ((\<lambda>k. Q k \<and> i \<in> posting ix k) \<circ> fst) ix"
    by (rule filter_cong) (auto simp: index_ok_posting [OF assms])
  then show ?thesis
    by (simp add: filter_map)
qed

lemma count_as_keys:
  "index_ok ix \<Longrightarrow>
   length (filter (\<lambda>(k, s). Q k \<and> i \<in> set s) ix)
     = length (filter (\<lambda>k. Q k \<and> i \<in> posting ix k) (map fst ix))"
  using entries_as_keys [of ix Q i, THEN arg_cong, of length] by simp

lemma fires_as_keys:
  assumes "index_ok ix"
  shows "list_ex (\<lambda>(k, s). Q k \<and> i \<in> set s) ix
     \<longleftrightarrow> filter (\<lambda>k. Q k \<and> i \<in> posting ix k) (map fst ix) \<noteq> []"
proof -
  have "list_ex (\<lambda>(k, s). Q k \<and> i \<in> set s) ix
          \<longleftrightarrow> filter (\<lambda>(k, s). Q k \<and> i \<in> set s) ix \<noteq> []"
    by (simp only: list_ex_iff filter_empty_conv) blast
  also have "\<dots> \<longleftrightarrow> map fst (filter (\<lambda>(k, s). Q k \<and> i \<in> set s) ix) \<noteq> []"
    by (simp only: map_is_Nil_conv)
  finally show ?thesis
    by (simp only: entries_as_keys [OF assms])
qed

lemma index_ok_all_distinct: "index_ok ix \<Longrightarrow> list_all (\<lambda>(k, s). distinct s) ix"
  by (auto simp: index_ok_def list_all_iff)

lemma prefix_step_rule:
  "prefix_step ix w = rule_fold (\<lambda>k. startsWith k w \<and> k \<noteq> w) 5 ''prefix'' ix"
  by (rule ext) (simp add: prefix_step_def rule_fold_def)

lemma contains_step_rule:
  "contains_step ix w = rule_fold (\<lambda>k. includes_str k w \<and> \<not> startsWith k w) 2 ''contains'' ix"
  by (rule ext) (simp add: contains_step_def rule_fold_def)

lemma score_at_exact_step:
  assumes "index_ok ix"
  shows "score_at (exact_step ix w sc) i = score_at sc i + (if exact_fires ix w i then 10 else 0)"
proof (cases "map_of ix w")
  case None
  then show ?thesis by (simp add: exact_step_def exact_fires_def posting_def)
next
  case (Some s)
  then have "(w, s) \<in> set ix" by (rule map_of_SomeD)
  then have "distinct s" using assms by (rule index_ok_distinct [rotated])
  with Some show ?thesis
    by (simp add: exact_step_def exact_fires_def posting_def score_at_fold_bump)
qed

lemma fields_at_exact_step:
  "set (fields_at (exact_step ix w sc) i)
     = set (fields_at sc i) \<union> (if exact_fires ix w i then {''exact''} else {})"
  by (cases "map_of ix w")
     (simp_all add: exact_step_def exact_fires_def posting_def fields_at_fold_bump)

lemma distinct_exact_step:
  "distinct (map fst sc) \<Longrightarrow> distinct (map fst (exact_step ix w sc))"
  by (cases "map_of ix w") (simp_all add: exact_step_def distinct_fold_bump)

lemma dom_exact_step:
  assumes "\<forall>(k, s)\<in>set ix. set s \<subseteq> P" and "fst ` set sc \<subseteq> P"
  shows "fst ` set (exact_step ix w sc) \<subseteq> P"
proof (cases "map_of ix w")
  case None
  with assms(2) show ?thesis by (simp add: exact_step_def)
next
  case (Some s)
  then have "(w, s) \<in> set ix" by (rule map_of_SomeD)
  with assms(1) have "set s \<subseteq> P" by blast
  with Some assms(2) show ?thesis
    by (simp add: exact_step_def dom_fold_bump)
qed

lemma score_at_prefix_step:
  assumes "index_ok ix"
  shows "score_at (prefix_step ix w sc) i = score_at sc i + 5 * int (length (prefix_keys ix w i))"
  unfolding prefix_step_rule prefix_keys_def
    score_at_rule_fold [OF index_ok_all_distinct [OF assms]] count_as_keys [OF assms] ..

lemma score_at_contains_step:
  assumes "index_ok ix"
  shows "score_at (contains_step ix w sc) i
           = score_at sc i + 2 * int (length (contains_keys ix w i))"
  unfolding contains_step_rule contains_keys_def
    score_at_rule_fold [OF index_ok_all_distinct [OF assms]] count_as_keys [OF assms] ..

lemma fields_at_prefix_step:
  assumes "index_ok ix"
  shows "set (fields_at (prefix_step ix w sc) i)
           = set (fields_at sc i) \<union> (if prefix_keys ix w i \<noteq> [] then {''prefix''} else {})"
  unfolding prefix_step_rule prefix_keys_def fields_at_rule_fold fires_as_keys [OF assms] ..

lemma fields_at_contains_step:
  assumes "index_ok ix"
  shows "set (fields_at (contains_step ix w sc) i)
           = set (fields_at sc i) \<union> (if contains_keys ix w i \<noteq> [] then {''contains''} else {})"
  unfolding contains_step_rule contains_keys_def fields_at_rule_fold fires_as_keys [OF assms] ..

lemma score_at_search_word:
  assumes "index_ok ix"
  shows "score_at (search_word ix w sc) i = score_at sc i + word_points ix w i"
  unfolding search_word_def score_at_contains_step [OF assms] score_at_prefix_step [OF assms]
    score_at_exact_step [OF assms] word_points_def
  by simp

lemma fields_at_search_word:
  assumes "index_ok ix"
  shows "set (fields_at (search_word ix w sc) i)
     = set (fields_at sc i)
       \<union> (if exact_fires ix w i then {''exact''} else {})
       \<union> (if prefix_keys ix w i \<noteq> [] then {''prefix''} else {})
       \<union> (if contains_keys ix w i \<noteq> [] then {''contains''} else {})"
  unfolding search_word_def fields_at_contains_step [OF assms] fields_at_prefix_step [OF assms]
    fields_at_exact_step ..

lemma distinct_search_word:
  "distinct (map fst sc) \<Longrightarrow> distinct (map fst (search_word ix w sc))"
  unfolding search_word_def prefix_step_rule contains_step_rule
  by (simp add: distinct_rule_fold distinct_exact_step)

lemma dom_search_word:
  assumes "\<forall>(k, s)\<in>set ix. set s \<subseteq> P" and "fst ` set sc \<subseteq> P"
  shows "fst ` set (search_word ix w sc) \<subseteq> P"
  unfolding search_word_def prefix_step_rule contains_step_rule
  by (intro dom_rule_fold dom_exact_step assms)

lemma score_at_fold_search_word:
  "index_ok ix \<Longrightarrow>
   score_at (fold (search_word ix) ws sc) i = score_at sc i + expected_score ix ws i"
  by (induction ws arbitrary: sc) (simp_all add: expected_score_def score_at_search_word)

lemma fields_at_fold_search_word:
  "index_ok ix \<Longrightarrow>
   set (fields_at (fold (search_word ix) ws sc) i) = set (fields_at sc i) \<union> expected_labels ix ws i"
proof (induction ws arbitrary: sc)
  case Nil
  then show ?case by (simp add: expected_labels_def)
next
  case (Cons w ws)
  have "expected_labels ix (w # ws) i
      = (if exact_fires ix w i then {''exact''} else {})
        \<union> (if prefix_keys ix w i \<noteq> [] then {''prefix''} else {})
        \<union> (if contains_keys ix w i \<noteq> [] then {''contains''} else {})
        \<union> expected_labels ix ws i"
    by (auto simp: expected_labels_def)
  then show ?case
    by (simp add: Cons.IH [OF Cons.prems] fields_at_search_word [OF Cons.prems] Un_assoc)
qed

lemma distinct_fold_search_word:
  "distinct (map fst sc) \<Longrightarrow> distinct (map fst (fold (search_word ix) ws sc))"
  by (induction ws arbitrary: sc) (simp_all add: distinct_search_word)

lemma dom_fold_search_word:
  assumes "\<forall>(k, s)\<in>set ix. set s \<subseteq> P"
  shows "fst ` set sc \<subseteq> P \<Longrightarrow> fst ` set (fold (search_word ix) ws sc) \<subseteq> P"
  by (induction ws arbitrary: sc) (simp_all add: dom_search_word [OF assms])

lemma accumulate_distinct: "distinct (map fst (accumulate ix ws))"
  unfolding accumulate_def by (rule distinct_fold_search_word) simp

lemma accumulate_entry:
  assumes "index_ok ix" and "(i, e) \<in> set (accumulate ix ws)"
  shows "score e = expected_score ix ws i"
    and "set (matchedFields e) = expected_labels ix ws i"
proof -
  have m: "map_of (accumulate ix ws) i = Some e"
    using accumulate_distinct assms(2) by (rule map_of_is_SomeI)
  have "score_at (accumulate ix ws) i = expected_score ix ws i"
    unfolding accumulate_def score_at_fold_search_word [OF assms(1)]
    by (simp add: score_at_def)
  with m show "score e = expected_score ix ws i"
    by (simp add: score_at_def)
  have "set (fields_at (accumulate ix ws) i) = expected_labels ix ws i"
    unfolding accumulate_def fields_at_fold_search_word [OF assms(1)]
    by (simp add: fields_at_def)
  with m show "set (matchedFields e) = expected_labels ix ws i"
    by (simp add: fields_at_def)
qed

lemma accumulate_dom:
  assumes "\<forall>(k, s)\<in>set ix. set s \<subseteq> P"
  shows "fst ` set (accumulate ix ws) \<subseteq> P"
  unfolding accumulate_def by (rule dom_fold_search_word [OF assms]) simp

section \<open>Suggestions, tokens of a blank text, counts\<close>

lemma set_keep_first [simp]: "set (keep_first xs) = set xs"
  by (induction xs rule: keep_first.induct) auto

lemma distinct_keep_first [simp]: "distinct (keep_first xs)"
  by (induction xs rule: keep_first.induct) auto

lemma removeAll_filter: "removeAll y (filter P xs) = filter (\<lambda>z. P z \<and> z \<noteq> y) xs"
  by (induction xs) auto

lemma set_add_old: "y \<in> set s \<Longrightarrow> set_add y s = s"
  by (simp add: set_add_def)

lemma set_add_new: "y \<notin> set s \<Longrightarrow> set_add y s = s @ [y]"
  by (simp add: set_add_def)

lemma fold_set_add:
  "fold set_add ys s = s @ keep_first (filter (\<lambda>y. y \<notin> set s) ys)"
proof (induction ys arbitrary: s)
  case Nil
  then show ?case by simp
next
  case (Cons y ys)
  show ?case
  proof (cases "y \<in> set s")
    case True
    then show ?thesis by (simp add: set_add_old Cons.IH)
  next
    case False
    have "filter (\<lambda>z. z \<notin> set (s @ [y])) ys = filter (\<lambda>z. z \<notin> set s \<and> z \<noteq> y) ys"
      by (rule filter_cong) auto
    with False show ?thesis
      by (simp add: set_add_new Cons.IH removeAll_filter)
  qed
qed

lemma fold_set_add_Nil: "fold set_add ys [] = keep_first ys"
  by (simp add: fold_set_add)

lemma keep_first_append:
  "keep_first (xs @ ys) = keep_first xs @ keep_first (filter (\<lambda>y. y \<notin> set xs) ys)"
proof -
  have "keep_first (xs @ ys) = fold set_add ys (fold set_add xs [])"
    by (simp only: fold_set_add_Nil [symmetric] fold_append comp_def)
  also have "\<dots> = fold set_add ys (keep_first xs)"
    by (simp only: fold_set_add_Nil)
  also have "\<dots> = keep_first xs @ keep_first (filter (\<lambda>y. y \<notin> set xs) ys)"
    by (simp only: fold_set_add [of ys] set_keep_first)
  finally show ?thesis .
qed

lemma title_pass_fold:
  "title_pass lc ql ps s
     = fold set_add (filter (\<lambda>t. includes_str (lc t) ql) (map title ps)) s"
  unfolding title_pass_def by (induction ps arbitrary: s) simp_all

lemma topics_fold:
  "fold (\<lambda>topic s. if includes_str (lc topic) ql then set_add topic s else s) ts s
     = fold set_add (filter (\<lambda>t. includes_str (lc t) ql) ts) s"
  by (induction ts arbitrary: s) simp_all

lemma topic_pass_fold:
  "topic_pass lc ql ps s
     = fold set_add (filter (\<lambda>t. includes_str (lc t) ql) (concat (map topics ps))) s"
  unfolding topic_pass_def by (induction ps arbitrary: s) (simp_all add: topics_fold)

lemma suggestions_spec:
  "suggestions lc eng query
     = keep_first (matching lc query (map title (problems eng))
                   @ matching lc query (concat (map topics (problems eng))))"
proof -
  have "suggestions lc eng query
      = fold set_add (matching lc query (map title (problems eng))
                      @ matching lc query (concat (map topics (problems eng)))) []"
    by (simp add: suggestions_def Let_def title_pass_fold topic_pass_fold matching_def)
  then show ?thesis
    by (simp only: fold_set_add_Nil)
qed

lemma split_ws_blank:
  "\<forall>c\<in>set s. is_space c \<Longrightarrow> set (split_ws cur s) \<subseteq> {cur, []}"
proof (induction cur s rule: split_ws.induct)
  case (1 cur)
  then show ?case by simp
next
  case (2 cur c cs)
  from "2.prems" have c: "is_space c" and cs: "\<forall>c\<in>set (dropWhile is_space cs). is_space c"
    by (simp_all add: dropWhile_all_iff)
  from "2.IH"(1) [OF c cs] c show ?case
    by auto
qed

lemma is_space_blank: "is_space 0x20"
  by (simp add: is_space_def)

lemma keeps_split: "keeps c \<longleftrightarrow> lower_alnum c \<or> is_space c"
  by (simp add: keeps_def lower_alnum_def)

lemma tokenize_no_alnum:
  assumes "\<forall>c\<in>set (lc text). \<not> lower_alnum c"
  shows "tokenize lc text = []"
proof -
  let ?s = "map (\<lambda>c. if keeps c then c else 0x20) (lc text)"
  have "\<forall>c\<in>set ?s. is_space c"
    using assms by (auto simp: keeps_split is_space_blank)
  then have "set (split_ws [] ?s) \<subseteq> {[]}"
    using split_ws_blank [of ?s "[]"] by simp
  then show ?thesis
    unfolding tokenize_def filter_empty_conv by auto
qed

lemma slice0_Nil: "slice0 [] n = []"
  by (simp add: slice0_def)

lemma ranked_Nil: "ranked eng [] = []"
  by (simp add: ranked_def accumulate_def)

lemma search_no_tokens: "tokenize lc query = [] \<Longrightarrow> search lc eng query n = []"
  by (simp add: search_def ranked_Nil slice0_Nil)

lemma difficulty_counts:
  "length (filter (\<lambda>p. difficulty p = Easy) ps)
   + length (filter (\<lambda>p. difficulty p = Medium) ps)
   + length (filter (\<lambda>p. difficulty p = Hard) ps) = length ps"
proof (induction ps)
  case Nil
  then show ?case by simp
next
  case (Cons p ps)
  then show ?case by (cases "difficulty p") simp_all
qed

lemma slice0_zero: "slice0 xs 0 = []"
  by (simp add: slice0_def)

lemma slice0_neg:
  "n < 0 \<Longrightarrow> slice0 xs n = take (length xs - nat (- n)) xs"
  by (auto simp: slice0_def nat_diff_distrib' intro: arg_cong [where f = "\<lambda>k. take k xs"])

section \<open>The examples, evaluated\<close>

lemmas string_eval = js_def toLowerCase_def lower_unit_def keeps_def is_space_def
  tokenize_def trim_def

lemmas index_eval = buildIndex_def index_problem_def new_engine_def enumerate_eq_zip
  set_add_def upt_rec

lemmas search_eval = search_def ranked_def accumulate_def search_word_def exact_step_def
  prefix_step_def contains_step_def slice0_def to_result_def

lemmas autocomplete_eval = autocomplete_def suggestions_def title_pass_def topic_pass_def
  slice0_def set_add_def

lemma demo_index:
  "index demo_engine =
     [(js ''two'', [0]), (js ''sum'', [0]), (js ''array'', [0]), (js ''hash'', [0]),
      (js ''table'', [0]), (js ''easy'', [0]), (js ''1'', [0]),
      (js ''number'', [1]), (js ''of'', [1]), (js ''islands'', [1]), (js ''graph'', [1]),
      (js ''medium'', [1]), (js ''200'', [1])]"
  by (simp add: demo_engine_def two_sum_def number_of_islands_def string_eval index_eval)

lemma demo_problems: "problems demo_engine = [two_sum, number_of_islands]"
  by (simp add: demo_engine_def new_engine_def)

lemma demo_search_easy:
  "search toLowerCase demo_engine (js ''easy'') 10
     = [\<lparr>problem = two_sum, result_score = 10, result_fields = [''exact'']\<rparr>]"
  by (simp add: search_eval demo_index demo_problems string_eval set_add_def)

lemma demo_search_sum:
  "search toLowerCase demo_engine (js ''sum'') 10
     = [\<lparr>problem = two_sum, result_score = 10, result_fields = [''exact'']\<rparr>]"
  by (simp add: search_eval demo_index demo_problems string_eval set_add_def)

lemma demo_accumulate_s:
  "accumulate (index demo_engine) (tokenize toLowerCase (js ''s''))
     = [(0, \<lparr>score = 9, matchedFields = [''prefix'', ''contains'']\<rparr>),
        (1, \<lparr>score = 2, matchedFields = [''contains'']\<rparr>)]"
  by (simp add: search_eval demo_index string_eval set_add_def)

lemma demo_search_s:
  "search toLowerCase demo_engine (js ''s'') 10
     = [\<lparr>problem = two_sum, result_score = 9, result_fields = [''prefix'', ''contains'']\<rparr>,
        \<lparr>problem = number_of_islands, result_score = 2, result_fields = [''contains'']\<rparr>]"
  unfolding search_def ranked_def demo_accumulate_s
  by (simp add: demo_problems slice0_def to_result_def trim_def is_space_def js_def)

lemma demo_autocomplete_is:
  "autocomplete toLowerCase demo_engine (js ''is'') 10 = [js ''Number of Islands'']"
  by (simp add: autocomplete_eval demo_problems string_eval two_sum_def number_of_islands_def)

lemma sums_search_neg:
  "search toLowerCase sums_engine (js ''sum'') (- 1)
     = [\<lparr>problem = two_sum, result_score = 10, result_fields = [''exact'']\<rparr>]"
  by (simp add: sums_engine_def two_sum_def three_sum_def string_eval index_eval search_eval)

lemma sums_autocomplete_neg:
  "autocomplete toLowerCase sums_engine (js ''sum'') (- 1) = [js ''Two Sum'']"
  by (simp add: sums_engine_def two_sum_def three_sum_def string_eval new_engine_def
        autocomplete_eval)

lemma kelvin_search:
  "search toLowerCase top_k_engine kelvin_query 10
     = [\<lparr>problem = top_k, result_score = 10, result_fields = [''exact'']\<rparr>]"
  by (simp add: top_k_engine_def top_k_def kelvin_query_def string_eval index_eval search_eval)

section \<open>Positions and results\<close>

lemma buildIndex_in_range:
  "\<forall>(k, s)\<in>set (buildIndex lc ps). set s \<subseteq> {..<length ps}"
proof -
  have "i < length ps" if ks: "(k, s) \<in> set (buildIndex lc ps)" and i: "i \<in> set s" for k s i
  proof -
    from index_ok_posting [OF buildIndex_ok ks] i have "i \<in> posting (buildIndex lc ps) k"
      by simp
    then show ?thesis
      by (simp add: posting_buildIndex)
  qed
  then show ?thesis by auto
qed

lemma search_subset_ranked: "set (search lc eng query n) \<subseteq> set (ranked eng (tokenize lc query))"
proof (cases "trim query = []")
  case True
  then show ?thesis by (simp add: search_def)
next
  case False
  obtain m where "slice0 (ranked eng (tokenize lc query)) n = take m (ranked eng (tokenize lc query))"
    using slice0_is_take by blast
  with False show ?thesis
    by (simp add: search_def set_take_subset)
qed

section \<open>Every rule that fires is counted\<close>

lemma bump_positive:
  "0 < pts \<Longrightarrow> \<forall>e\<in>snd ` set sc. 0 < score e \<Longrightarrow>
   \<forall>e\<in>snd ` set (bump pts l idx sc). 0 < score e"
  by (induction sc) (force split: if_splits)+

lemma fold_bump_positive:
  assumes "0 < pts"
  shows "\<forall>e\<in>snd ` set sc. 0 < score e \<Longrightarrow>
         \<forall>e\<in>snd ` set (fold (bump pts l) s sc). 0 < score e"
proof (induction s arbitrary: sc)
  case Nil
  then show ?case by simp
next
  case (Cons a s)
  from bump_positive [OF assms Cons.prems]
  have "\<forall>e\<in>snd ` set (fold (bump pts l) s (bump pts l a sc)). 0 < score e"
    by (rule Cons.IH)
  then show ?case by simp
qed

lemma rule_fold_positive:
  assumes "0 < pts"
  shows "\<forall>e\<in>snd ` set sc. 0 < score e \<Longrightarrow>
         \<forall>e\<in>snd ` set (rule_fold Q pts l ix sc). 0 < score e"
proof (induction ix arbitrary: sc)
  case Nil
  then show ?case by (simp add: rule_fold_def)
next
  case (Cons a ix)
  obtain k s where a: "a = (k, s)" by (cases a)
  have step: "rule_fold Q pts l (a # ix) sc
      = rule_fold Q pts l ix (if Q k then fold (bump pts l) s sc else sc)"
    by (simp add: rule_fold_def a)
  have "\<forall>e\<in>snd ` set (if Q k then fold (bump pts l) s sc else sc). 0 < score e"
  proof (cases "Q k")
    case True
    with fold_bump_positive [OF assms Cons.prems, of l s] show ?thesis by simp
  next
    case False
    with Cons.prems show ?thesis by simp
  qed
  then show ?case
    unfolding step by (rule Cons.IH)
qed

lemma exact_step_positive:
  assumes "\<forall>e\<in>snd ` set sc. 0 < score e"
  shows "\<forall>e\<in>snd ` set (exact_step ix w sc). 0 < score e"
proof (cases "map_of ix w")
  case None
  with assms show ?thesis by (simp add: exact_step_def)
next
  case (Some s)
  have "\<forall>e\<in>snd ` set (fold (bump 10 ''exact'') s sc). 0 < score e"
    by (rule fold_bump_positive [OF _ assms]) simp
  with Some show ?thesis by (simp add: exact_step_def)
qed

lemma search_word_positive:
  assumes "\<forall>e\<in>snd ` set sc. 0 < score e"
  shows "\<forall>e\<in>snd ` set (search_word ix w sc). 0 < score e"
proof -
  have five: "(0::int) < 5" and two: "(0::int) < 2" by simp_all
  show ?thesis
    unfolding search_word_def prefix_step_rule contains_step_rule
    by (rule rule_fold_positive [OF two], rule rule_fold_positive [OF five],
        rule exact_step_positive, rule assms)
qed

lemma fold_search_word_positive:
  "\<forall>e\<in>snd ` set sc. 0 < score e \<Longrightarrow>
   \<forall>e\<in>snd ` set (fold (search_word ix) ws sc). 0 < score e"
proof (induction ws arbitrary: sc)
  case Nil
  then show ?case by simp
next
  case (Cons w ws)
  from search_word_positive [OF Cons.prems]
  have "\<forall>e\<in>snd ` set (fold (search_word ix) ws (search_word ix w sc)). 0 < score e"
    by (rule Cons.IH)
  then show ?case by simp
qed

lemma accumulate_positive: "(i, e) \<in> set (accumulate ix ws) \<Longrightarrow> 0 < score e"
proof -
  have "\<forall>e\<in>snd ` set (accumulate ix ws). 0 < score e"
    unfolding accumulate_def by (rule fold_search_word_positive) simp
  then show "(i, e) \<in> set (accumulate ix ws) \<Longrightarrow> 0 < score e"
    by force
qed

lemma accumulate_score_at:
  "index_ok ix \<Longrightarrow> score_at (accumulate ix ws) i = expected_score ix ws i"
  unfolding accumulate_def by (simp add: score_at_fold_search_word) (simp add: score_at_def)

lemma accumulate_fields_at:
  "index_ok ix \<Longrightarrow> set (fields_at (accumulate ix ws) i) = expected_labels ix ws i"
  unfolding accumulate_def by (simp add: fields_at_fold_search_word) (simp add: fields_at_def)

lemma accumulate_candidate:
  assumes "index_ok ix"
  shows "i \<in> fst ` set (accumulate ix ws) \<longleftrightarrow> 0 < expected_score ix ws i"
proof
  assume "i \<in> fst ` set (accumulate ix ws)"
  then obtain e where e: "(i, e) \<in> set (accumulate ix ws)" by force
  then have "0 < score e" by (rule accumulate_positive)
  with accumulate_entry(1) [OF assms e] show "0 < expected_score ix ws i" by simp
next
  assume pos: "0 < expected_score ix ws i"
  show "i \<in> fst ` set (accumulate ix ws)"
  proof (rule ccontr)
    assume "i \<notin> fst ` set (accumulate ix ws)"
    then have "map_of (accumulate ix ws) i = None"
      by (simp add: map_of_eq_None_iff)
    then have "score_at (accumulate ix ws) i = 0"
      by (simp add: score_at_def)
    with accumulate_score_at [OF assms, of ws i] pos show False by simp
  qed
qed

lemma accumulate_entry_eq:
  assumes "(i, e) \<in> set (accumulate ix ws)"
  shows "e = \<lparr>score = score_at (accumulate ix ws) i, matchedFields = fields_at (accumulate ix ws) i\<rparr>"
proof -
  have "map_of (accumulate ix ws) i = Some e"
    using accumulate_distinct assms by (rule map_of_is_SomeI)
  then show ?thesis
    by (simp add: score_at_def fields_at_def)
qed

lemma slice0_all: "int (length xs) \<le> n \<Longrightarrow> slice0 xs n = xs"
  by (simp add: slice0_def)

lemma slice0_length: "0 \<le> n \<Longrightarrow> length (slice0 xs n) = min (nat n) (length xs)"
  by (simp add: slice0_def min_def)

lemma accumulate_positions:
  "mset (map fst (accumulate (buildIndex lc ps) ws))
     = mset (filter (\<lambda>i. 0 < expected_score (buildIndex lc ps) ws i) [0..<length ps])"
proof -
  let ?ix = "buildIndex lc ps"
  have range: "fst ` set (accumulate ?ix ws) \<subseteq> {..<length ps}"
    by (rule accumulate_dom [OF buildIndex_in_range])
  have "set (map fst (accumulate ?ix ws))
      = set (filter (\<lambda>i. 0 < expected_score ?ix ws i) [0..<length ps])"
    using range accumulate_candidate [OF buildIndex_ok, of _ lc ps ws] by auto
  moreover have "distinct (filter (\<lambda>i. 0 < expected_score ?ix ws i) [0..<length ps])"
    by simp
  ultimately show ?thesis
    using accumulate_distinct [of ?ix ws] by (simp only: set_eq_iff_mset_eq_distinct)
qed

lemma ranked_by_position:
  "mset (ranked (new_engine lc ps) ws)
     = image_mset
         (\<lambda>i. \<lparr>problem = ps ! i,
               result_score = expected_score (buildIndex lc ps) ws i,
               result_fields = fields_at (accumulate (buildIndex lc ps) ws) i\<rparr>)
         (mset (filter (\<lambda>i. 0 < expected_score (buildIndex lc ps) ws i) [0..<length ps]))"
proof -
  let ?ix = "buildIndex lc ps"
  let ?acc = "accumulate ?ix ws"
  let ?g = "\<lambda>i. \<lparr>problem = ps ! i, result_score = expected_score ?ix ws i,
                   result_fields = fields_at ?acc i\<rparr>"
  have "map (to_result ps) ?acc = map (?g \<circ> fst) ?acc"
  proof (rule map_cong [OF refl])
    fix x
    assume x: "x \<in> set ?acc"
    obtain i e where ie: "x = (i, e)" by (cases x)
    from x accumulate_entry_eq [of i e ?ix ws]
    have "e = \<lparr>score = score_at ?acc i, matchedFields = fields_at ?acc i\<rparr>"
      by (simp add: ie)
    then have "score e = expected_score ?ix ws i" and "matchedFields e = fields_at ?acc i"
      using accumulate_score_at [OF buildIndex_ok, of lc ps ws i]
      by (metis ScoreEntry.select_convs(1), metis ScoreEntry.select_convs(2))
    then show "to_result ps x = (?g \<circ> fst) x"
      by (simp add: ie to_result_def)
  qed
  then have "map (to_result ps) ?acc = map ?g (map fst ?acc)"
    by (simp only: map_map)
  then have "mset (map (to_result ps) ?acc) = image_mset ?g (mset (map fst ?acc))"
    by (simp only: mset_map)
  moreover have "ranked (new_engine lc ps) ws
      = sort_key (\<lambda>r. - result_score r) (map (to_result ps) ?acc)"
    by (simp add: ranked_def new_engine_def)
  ultimately show ?thesis
    by (simp only: mset_sort accumulate_positions)
qed

lemma ranked_length:
  "length (ranked (new_engine lc ps) ws)
     = length (filter (\<lambda>i. 0 < expected_score (buildIndex lc ps) ws i) [0..<length ps])"
proof -
  have "size (mset (ranked (new_engine lc ps) ws))
      = size (mset (filter (\<lambda>i. 0 < expected_score (buildIndex lc ps) ws i) [0..<length ps]))"
    by (simp only: ranked_by_position size_image_mset)
  then show ?thesis
    by (simp only: size_mset)
qed

lemma count_difficulty:  "length (filter (\<lambda>p. difficulty p = d) ps) = count_list (map difficulty ps) d"
  by (induction ps) auto

section \<open>The properties\<close>

text \<open>
  Claim C1. For every engine built from a record sequence and every query, the score that
  \<^verbatim>\<open>search\<close> accumulates for a record position is the sum, over the tokens \<open>w\<close> of the query,
  of 10 if the position is stored under the key \<open>w\<close>, 5 for every key that holds the position,
  starts with \<open>w\<close> and differs from \<open>w\<close>, and 2 for every key that holds the position, contains
  \<open>w\<close> and does not start with \<open>w\<close>; the labels of the position are those of the rules that
  fired. This holds at every position: one without an entry has the sum 0 and no label, and
  the positions with an entry are exactly those of a record with a positive sum. The keys of
  the index are pairwise distinct, so each key is counted once. The results follow the
  accumulator: each result is the record of a candidate position with its sum and labels,
  and for a query that is not blank and a bound that is not negative the results are the
  first entries of a list, ordered by non-increasing score, that holds one result for every
  candidate position.
\<close>

theorem search_scores_by_rules:
  "let eng = new_engine lc ps; ix = index eng; ws = tokenize lc query;
       acc = accumulate ix ws;
       candidates = filter (\<lambda>i. 0 < expected_score ix ws i) [0..<length ps]
   in distinct (map fst ix) \<and> distinct (map fst acc)
    \<and> (\<forall>i. score_at acc i = expected_score ix ws i
            \<and> set (fields_at acc i) = expected_labels ix ws i)
    \<and> (\<forall>i. i \<in> fst ` set acc \<longleftrightarrow> i < length ps \<and> 0 < expected_score ix ws i)
    \<and> (\<forall>(i, e)\<in>set acc.
          score e = expected_score ix ws i \<and> set (matchedFields e) = expected_labels ix ws i)
    \<and> (\<forall>n. \<forall>r\<in>set (search lc eng query n).
          \<exists>i<length ps. problem r = ps ! i
             \<and> result_score r = expected_score ix ws i
             \<and> set (result_fields r) = expected_labels ix ws i)
    \<and> (\<exists>full. sorted_wrt (\<lambda>a b. result_score b \<le> result_score a) full
          \<and> mset full
              = image_mset
                  (\<lambda>i. \<lparr>problem = ps ! i, result_score = expected_score ix ws i,
                        result_fields = fields_at acc i\<rparr>)
                  (mset candidates)
          \<and> (\<forall>n. trim query \<noteq> [] \<and> 0 \<le> n
                 \<longrightarrow> search lc eng query n = take (nat n) full))"
proof -
  let ?eng = "new_engine lc ps"
  let ?ix = "index ?eng" and ?ws = "tokenize lc query"
  let ?acc = "accumulate ?ix ?ws"
  let ?cands = "filter (\<lambda>i. 0 < expected_score ?ix ?ws i) [0..<length ps]"
  have ix: "?ix = buildIndex lc ps"
    by (simp add: new_engine_def)
  have ok: "index_ok ?ix"
    unfolding ix by (rule buildIndex_ok)
  have keys: "distinct (map fst ?ix)"
    using ok by (simp add: index_ok_def)
  have acc_keys: "distinct (map fst ?acc)"
    by (rule accumulate_distinct)
  have at: "\<forall>i. score_at ?acc i = expected_score ?ix ?ws i
      \<and> set (fields_at ?acc i) = expected_labels ?ix ?ws i"
    using accumulate_score_at [OF ok] accumulate_fields_at [OF ok] by blast
  have range: "fst ` set ?acc \<subseteq> {..<length ps}"
    unfolding ix by (rule accumulate_dom [OF buildIndex_in_range])
  have cand: "\<forall>i. i \<in> fst ` set ?acc \<longleftrightarrow> i < length ps \<and> 0 < expected_score ?ix ?ws i"
    using range accumulate_candidate [OF ok, of _ ?ws] by blast
  have entries: "\<forall>(i, e)\<in>set ?acc.
      score e = expected_score ?ix ?ws i \<and> set (matchedFields e) = expected_labels ?ix ?ws i"
    using accumulate_entry [OF ok] by blast
  have results: "\<forall>n. \<forall>r\<in>set (search lc ?eng query n).
      \<exists>i<length ps. problem r = ps ! i \<and> result_score r = expected_score ?ix ?ws i
        \<and> set (result_fields r) = expected_labels ?ix ?ws i"
  proof (intro allI ballI)
    fix n r
    assume "r \<in> set (search lc ?eng query n)"
    then have "r \<in> set (ranked ?eng ?ws)"
      using search_subset_ranked by blast
    then obtain i e where ie: "(i, e) \<in> set ?acc" and r: "r = to_result ps (i, e)"
      by (auto simp: ranked_def new_engine_def)
    from ie range have "i < length ps" by force
    moreover from entries ie have "score e = expected_score ?ix ?ws i"
      and "set (matchedFields e) = expected_labels ?ix ?ws i"
      by blast+
    ultimately show "\<exists>i<length ps. problem r = ps ! i
        \<and> result_score r = expected_score ?ix ?ws i
        \<and> set (result_fields r) = expected_labels ?ix ?ws i"
      by (auto simp: r to_result_def)
  qed
  have full: "\<exists>full. sorted_wrt (\<lambda>a b. result_score b \<le> result_score a) full
      \<and> mset full
          = image_mset
              (\<lambda>i. \<lparr>problem = ps ! i, result_score = expected_score ?ix ?ws i,
                    result_fields = fields_at ?acc i\<rparr>)
              (mset ?cands)
      \<and> (\<forall>n. trim query \<noteq> [] \<and> 0 \<le> n \<longrightarrow> search lc ?eng query n = take (nat n) full)"
  proof (intro exI conjI)
    show "sorted_wrt (\<lambda>a b. result_score b \<le> result_score a) (ranked ?eng ?ws)"
      by (rule ranked_sorted)
    show "mset (ranked ?eng ?ws)
        = image_mset
            (\<lambda>i. \<lparr>problem = ps ! i, result_score = expected_score ?ix ?ws i,
                  result_fields = fields_at ?acc i\<rparr>)
            (mset ?cands)"
      unfolding ix by (rule ranked_by_position)
    show "\<forall>n. trim query \<noteq> [] \<and> 0 \<le> n
        \<longrightarrow> search lc ?eng query n = take (nat n) (ranked ?eng ?ws)"
      by (simp add: search_def slice0_def)
  qed
  from keys acc_keys at cand entries results full show ?thesis
    unfolding Let_def by (intro conjI)
qed

theorem search_scores_by_rules_witness:
  "accumulate (index demo_engine) (tokenize toLowerCase (js ''s''))
     = [(0, \<lparr>score = 9, matchedFields = [''prefix'', ''contains'']\<rparr>),
        (1, \<lparr>score = 2, matchedFields = [''contains'']\<rparr>)]
   \<and> expected_score (index demo_engine) (tokenize toLowerCase (js ''s'')) 0 = 9
   \<and> expected_labels (index demo_engine) (tokenize toLowerCase (js ''s'')) 0
        = {''prefix'', ''contains''}
   \<and> expected_score (index demo_engine) (tokenize toLowerCase (js ''s'')) 1 = 2
   \<and> expected_labels (index demo_engine) (tokenize toLowerCase (js ''s'')) 1 = {''contains''}"
proof -
  let ?acc = "accumulate (index demo_engine) (tokenize toLowerCase (js ''s''))"
  from search_scores_by_rules [of toLowerCase "[two_sum, number_of_islands]" "js ''s''"]
  have at: "\<forall>i. score_at ?acc i
              = expected_score (index demo_engine) (tokenize toLowerCase (js ''s'')) i
         \<and> set (fields_at ?acc i)
              = expected_labels (index demo_engine) (tokenize toLowerCase (js ''s'')) i"
    unfolding Let_def demo_engine_def by blast
  have "score_at ?acc 0 = 9" "set (fields_at ?acc 0) = {''prefix'', ''contains''}"
    "score_at ?acc 1 = 2" "set (fields_at ?acc 1) = {''contains''}"
    unfolding demo_accumulate_s by (simp_all add: score_at_def fields_at_def)
  with at demo_accumulate_s show ?thesis
    by metis
qed

text \<open>
  Claim C2. In the index built at construction every key maps to a non-empty set, no key
  occurs twice, and position \<open>i\<close> is stored under the key \<open>t\<close> exactly when \<open>i\<close> is the position
  of a record and \<open>t\<close> is a token of its title or of one of its topics, or its lower-cased
  difficulty name, or its identifier string as supplied.
\<close>

theorem buildIndex_characterisation:
  "(\<forall>(k, s)\<in>set (buildIndex lc ps). s \<noteq> [])
   \<and> distinct (map fst (buildIndex lc ps))
   \<and> (i \<in> posting (buildIndex lc ps) t \<longleftrightarrow> i < length ps \<and> key_source lc (ps ! i) t)"
proof -
  have "index_ok (buildIndex lc ps)"
    by (rule buildIndex_ok)
  then have "(\<forall>(k, s)\<in>set (buildIndex lc ps). s \<noteq> [])" and "distinct (map fst (buildIndex lc ps))"
    by (auto simp: index_ok_def list_all_iff)
  then show ?thesis
    by (simp add: posting_buildIndex)
qed

theorem buildIndex_characterisation_witness:
  "(js ''sum'', [0]) \<in> set (buildIndex toLowerCase [two_sum, number_of_islands])
   \<and> 0 \<in> posting (buildIndex toLowerCase [two_sum, number_of_islands]) (js ''sum'')
   \<and> key_source toLowerCase two_sum (js ''sum'')
   \<and> 1 \<notin> posting (buildIndex toLowerCase [two_sum, number_of_islands]) (js ''sum'')
   \<and> \<not> key_source toLowerCase number_of_islands (js ''sum'')"
proof -
  have ix: "buildIndex toLowerCase [two_sum, number_of_islands] = index demo_engine"
    by (simp add: demo_engine_def new_engine_def)
  have mem: "(js ''sum'', [0]) \<in> set (buildIndex toLowerCase [two_sum, number_of_islands])"
    unfolding ix demo_index by simp
  have p0: "0 \<in> posting (buildIndex toLowerCase [two_sum, number_of_islands]) (js ''sum'')"
    unfolding ix demo_index by (simp add: posting_def js_def)
  have p1: "1 \<notin> posting (buildIndex toLowerCase [two_sum, number_of_islands]) (js ''sum'')"
    unfolding ix demo_index by (simp add: posting_def js_def)
  from p0 buildIndex_characterisation [of toLowerCase "[two_sum, number_of_islands]" 0 "js ''sum''"]
  have k0: "key_source toLowerCase two_sum (js ''sum'')"
    by simp
  from p1 buildIndex_characterisation [of toLowerCase "[two_sum, number_of_islands]" 1 "js ''sum''"]
  have k1: "\<not> key_source toLowerCase number_of_islands (js ''sum'')"
    by simp
  from mem p0 p1 k0 k1 show ?thesis by blast
qed

lemma visible_trim: "(\<exists>c\<in>set query. \<not> is_space c) \<longleftrightarrow> trim query \<noteq> []"
  by (simp add: trim_empty_iff)

lemma js_sum_visible: "trim (js ''sum'') \<noteq> []"
  by (simp add: string_eval)

text \<open>
  Claim C3, as stated: with a bound that is not positive, \<^verbatim>\<open>search\<close> and \<^verbatim>\<open>autocomplete\<close> reject
  the call or return an empty sequence. The code has no check of the bound and hands it to
  \<^verbatim>\<open>slice(0, n)\<close>: with two records that match and the bound \<open>-1\<close> each operation returns
  one entry.
\<close>

theorem nonpositive_bound_counterexample:
  "(- 1 :: int) \<le> 0
   \<and> search toLowerCase sums_engine (js ''sum'') (- 1)
       = [\<lparr>problem = two_sum, result_score = 10, result_fields = [''exact'']\<rparr>]
   \<and> autocomplete toLowerCase sums_engine (js ''sum'') (- 1) = [js ''Two Sum'']"
  using sums_search_neg sums_autocomplete_neg by simp

text \<open>
  Claim C3, amended: with the bound 0 both operations return the empty sequence; with a
  negative bound \<open>n\<close> neither rejects the call, and each returns its full list of results
  without the last \<open>-n\<close> entries.
\<close>

theorem nonpositive_bound_slices:
  assumes "n \<le> 0"
  shows "search lc eng query n
           = (if trim query = [] \<or> n = 0 then []
              else take (length (ranked eng (tokenize lc query)) - nat (- n))
                     (ranked eng (tokenize lc query)))
       \<and> autocomplete lc eng query n
           = (if trim query = [] \<or> n = 0 then []
              else take (length (suggestions lc eng query) - nat (- n))
                     (suggestions lc eng query))"
proof (cases "n = 0")
  case True
  then show ?thesis
    by (simp add: search_def autocomplete_def slice0_zero)
next
  case False
  with assms have "n < 0" by simp
  then show ?thesis
    by (simp add: search_def autocomplete_def slice0_neg)
qed

theorem nonpositive_bound_slices_witness:
  "(- 1 :: int) \<le> 0
   \<and> search toLowerCase sums_engine (js ''sum'') (- 1)
       = take (length (ranked sums_engine (tokenize toLowerCase (js ''sum''))) - 1)
           (ranked sums_engine (tokenize toLowerCase (js ''sum'')))
   \<and> search toLowerCase sums_engine (js ''sum'') 0 = []
   \<and> autocomplete toLowerCase sums_engine (js ''sum'') 0 = []"
proof -
  have neg: "(- 1 :: int) \<le> 0" and zero: "(0 :: int) \<le> 0"
    by simp_all
  from nonpositive_bound_slices [OF neg, of toLowerCase sums_engine "js ''sum''"]
    nonpositive_bound_slices [OF zero, of toLowerCase sums_engine "js ''sum''"]
    js_sum_visible
  show ?thesis by simp
qed

text \<open>
  Claim C4. For the engine built from the records Two Sum (identifier 1, Easy, topics Array
  and Hash Table) and Number of Islands (identifier 200, Medium, topic Graph):
  \<^verbatim>\<open>search("easy", 10)\<close> returns the first record alone, with score 10;
  \<^verbatim>\<open>search("sum", 10)\<close> returns the first record through the exact rule, \<^verbatim>\<open>sum\<close> being a
  token of its title; \<^verbatim>\<open>autocomplete("is", 10)\<close> returns the title Number of Islands alone.
\<close>

theorem end_to_end_scenario:
  "search toLowerCase (new_engine toLowerCase [two_sum, number_of_islands]) (js ''easy'') 10
     = [\<lparr>problem = two_sum, result_score = 10, result_fields = [''exact'']\<rparr>]
   \<and> search toLowerCase (new_engine toLowerCase [two_sum, number_of_islands]) (js ''sum'') 10
     = [\<lparr>problem = two_sum, result_score = 10, result_fields = [''exact'']\<rparr>]
   \<and> js ''sum'' \<in> set (tokenize toLowerCase (title two_sum))
   \<and> autocomplete toLowerCase (new_engine toLowerCase [two_sum, number_of_islands]) (js ''is'') 10
     = [js ''Number of Islands'']"
proof -
  have "js ''sum'' \<in> set (tokenize toLowerCase (title two_sum))"
    by (simp add: two_sum_def string_eval)
  with demo_search_easy demo_search_sum demo_autocomplete_is show ?thesis
    unfolding demo_engine_def by simp
qed

text \<open>
  Claim C5. The sequence returned by \<^verbatim>\<open>search\<close> is ordered by non-increasing score: a result
  that precedes another has a score at least as large.
\<close>

theorem search_sorted_by_score:
  "i < j \<Longrightarrow> j < length (search lc eng query n) \<Longrightarrow>
   result_score (search lc eng query n ! j) \<le> result_score (search lc eng query n ! i)"
  using search_sorted [of lc eng query n] by (simp add: sorted_wrt_iff_nth_less)

theorem search_sorted_by_score_witness:
  "(0::nat) < 1 \<and> 1 < length (search toLowerCase demo_engine (js ''s'') 10)
   \<and> result_score (search toLowerCase demo_engine (js ''s'') 10 ! 1)
       \<le> result_score (search toLowerCase demo_engine (js ''s'') 10 ! 0)
   \<and> result_score (search toLowerCase demo_engine (js ''s'') 10 ! 0) = 9
   \<and> result_score (search toLowerCase demo_engine (js ''s'') 10 ! 1) = 2"
proof -
  have a: "(0::nat) < 1" by simp
  have b: "1 < length (search toLowerCase demo_engine (js ''s'') 10)"
    unfolding demo_search_s by simp
  from search_sorted_by_score [OF a b] a b show ?thesis
    unfolding demo_search_s by simp
qed

text \<open>
  Claim C6. With a positive bound \<open>k\<close>, \<^verbatim>\<open>search\<close> returns at most \<open>k\<close> results.
\<close>

theorem search_result_bound:
  "0 < k \<Longrightarrow> length (search lc eng query k) \<le> nat k"
  by (simp add: search_def length_slice0)

theorem search_result_bound_witness:
  "(0::int) < 1 \<and> length (search toLowerCase demo_engine (js ''s'') 1) \<le> nat 1
   \<and> length (search toLowerCase demo_engine (js ''s'') 10) = 2"
proof -
  have a: "(0::int) < 1" by simp
  from search_result_bound [OF a, of toLowerCase demo_engine "js ''s''"] show ?thesis
    unfolding demo_search_s by simp
qed

text \<open>
  Claim C7. For every engine, every bound and every query that is empty or made of white
  space only, \<^verbatim>\<open>search\<close> and \<^verbatim>\<open>autocomplete\<close> return the empty sequence. Neither has a
  failing branch.
\<close>

theorem blank_query_empty:
  "\<forall>c\<in>set query. is_space c \<Longrightarrow>
   search lc eng query n = [] \<and> autocomplete lc eng query n = []"
  by (simp add: search_def autocomplete_def trim_empty_iff)

theorem blank_query_empty_witness:
  "list_all is_space (js '' '')
   \<and> search toLowerCase demo_engine (js '' '') 10 = []
   \<and> autocomplete toLowerCase demo_engine (js '' '') 10 = []
   \<and> search toLowerCase empty_engine [] 10 = []
   \<and> autocomplete toLowerCase empty_engine [] 10 = []"
proof -
  have a: "\<forall>c\<in>set (js '' ''). is_space c"
    by (simp add: js_def is_space_def)
  have b: "\<forall>c\<in>set ([] :: jsstring). is_space c"
    by simp
  from blank_query_empty [OF a, of toLowerCase demo_engine 10]
    blank_query_empty [OF b, of toLowerCase empty_engine 10] a
  show ?thesis by (simp add: list_all_iff)
qed

text \<open>
  Claim C8, as stated, speaks of every non-empty query. A query made of one blank is not
  empty, and the titles Two Sum and Number of Islands and the topic Hash Table contain a
  blank; the code returns no suggestion for it, since the guard tests the trimmed query.
\<close>

theorem autocomplete_blank_counterexample:
  "js '' '' \<noteq> []
   \<and> autocomplete toLowerCase demo_engine (js '' '') 10 = []
   \<and> autocomplete_spec toLowerCase (problems demo_engine) (js '' '') 10
       = [js ''Two Sum'', js ''Number of Islands'', js ''Hash Table'']"
  by (simp add: autocomplete_def autocomplete_spec_def matching_def demo_problems
        two_sum_def number_of_islands_def string_eval)

text \<open>
  Claim C8, amended: for every query with a character that is not white space and every
  bound \<open>n\<close> that is not negative, \<^verbatim>\<open>autocomplete\<close> returns the first \<open>n\<close> of the matching titles
  followed by the matching topics, duplicates suppressed with the first occurrence kept.
  The result has no duplicates, and before truncation it is the matching titles followed
  by the matching topics that are not among them.
\<close>

theorem autocomplete_refines_spec:
  assumes "\<exists>c\<in>set query. \<not> is_space c" and "0 \<le> n"
  shows "autocomplete lc eng query n = autocomplete_spec lc (problems eng) query n
       \<and> distinct (autocomplete lc eng query n)
       \<and> keep_first (matching lc query (map title (problems eng))
                      @ matching lc query (concat (map topics (problems eng))))
           = keep_first (matching lc query (map title (problems eng)))
             @ keep_first (filter (\<lambda>u. u \<notin> set (matching lc query (map title (problems eng))))
                             (matching lc query (concat (map topics (problems eng)))))"
proof -
  from assms(1) have guard: "trim query \<noteq> []"
    using visible_trim [of query] by blast
  from assms(2) have slice: "slice0 xs n = take (nat n) xs" for xs :: "jsstring list"
    by (simp add: slice0_def)
  have eq: "autocomplete lc eng query n = autocomplete_spec lc (problems eng) query n"
    using guard by (simp add: autocomplete_def slice suggestions_spec autocomplete_spec_def)
  have "distinct (autocomplete_spec lc (problems eng) query n)"
    by (simp add: autocomplete_spec_def)
  with eq show ?thesis
    by (simp add: keep_first_append)
qed

theorem autocomplete_refines_spec_witness:
  "(\<exists>c\<in>set (js ''is''). \<not> is_space c) \<and> (0::int) \<le> 10
   \<and> autocomplete_spec toLowerCase (problems demo_engine) (js ''is'') 10
       = [js ''Number of Islands'']"
proof -
  have a: "\<exists>c\<in>set (js ''is''). \<not> is_space c"
    by (simp add: js_def is_space_def)
  have b: "(0::int) \<le> 10" by simp
  from autocomplete_refines_spec [OF a b, of toLowerCase demo_engine] a
  show ?thesis
    by (simp add: demo_autocomplete_is)
qed

text \<open>
  Claim C9. \<^verbatim>\<open>getStats\<close> reports the number of records supplied at construction, the number
  of distinct keys of the index, and as easy, medium and hard the numbers of records of each
  difficulty, which add up to the number of records.
\<close>

theorem getStats_consistent:
  "totalProblems (getStats (new_engine lc ps)) = length ps
   \<and> indexSize (getStats (new_engine lc ps)) = card (fst ` set (index (new_engine lc ps)))
   \<and> easy (getStats (new_engine lc ps)) = count_list (map difficulty ps) Easy
   \<and> medium (getStats (new_engine lc ps)) = count_list (map difficulty ps) Medium
   \<and> hard (getStats (new_engine lc ps)) = count_list (map difficulty ps) Hard
   \<and> easy (getStats (new_engine lc ps)) + medium (getStats (new_engine lc ps))
       + hard (getStats (new_engine lc ps)) = totalProblems (getStats (new_engine lc ps))"
proof -
  have "distinct (map fst (buildIndex lc ps))"
    using buildIndex_ok [of lc ps] by (simp add: index_ok_def)
  then have "card (fst ` set (buildIndex lc ps)) = length (buildIndex lc ps)"
    using distinct_card [of "map fst (buildIndex lc ps)"] by simp
  moreover have "count_list (map difficulty ps) Easy + count_list (map difficulty ps) Medium
      + count_list (map difficulty ps) Hard = length ps"
    using difficulty_counts [of ps] by (simp only: count_difficulty)
  ultimately show ?thesis
    by (simp add: getStats_def new_engine_def count_difficulty)
qed

text \<open>
  Claim C10, as stated: a query with a character that is not white space and with no ASCII
  letter or digit tokenizes to no token, so that \<^verbatim>\<open>search\<close> returns nothing. The tokenizer
  lower-cases before it strips: the query made of U+212A KELVIN SIGN has no ASCII letter, its
  lower case is \<^verbatim>\<open>k\<close>, and a record whose title has the word K is returned.
\<close>

theorem kelvin_query_counterexample:
  "visible kelvin_query \<and> no_ascii_alnum kelvin_query
   \<and> tokenize toLowerCase kelvin_query = [js ''k'']
   \<and> search toLowerCase top_k_engine kelvin_query 10
       = [\<lparr>problem = top_k, result_score = 10, result_fields = [''exact'']\<rparr>]"
proof -
  have "visible kelvin_query" "no_ascii_alnum kelvin_query"
    "tokenize toLowerCase kelvin_query = [js ''k'']"
    by (simp_all add: visible_def no_ascii_alnum_def ascii_alnum_def lower_alnum_def
          kelvin_query_def string_eval)
  with kelvin_search show ?thesis by simp
qed

text \<open>
  Claim C10, amended: a query with a character that is not white space passes the guard; a
  query whose lower-case form has no ASCII lower-case letter and no digit tokenizes to no
  token; and whenever the query tokenizes to no token \<^verbatim>\<open>search\<close> returns the empty sequence.
\<close>

theorem no_tokens_no_results:
  "((\<exists>c\<in>set query. \<not> is_space c) \<longrightarrow> trim query \<noteq> [])
   \<and> ((\<forall>c\<in>set (lc query). \<not> lower_alnum c) \<longrightarrow> tokenize lc query = [])
   \<and> (tokenize lc query = [] \<longrightarrow> search lc eng query n = [])"
  using visible_trim [of query] tokenize_no_alnum [of lc query] search_no_tokens [of lc query eng n]
  by blast

theorem no_tokens_no_results_witness:
  "(\<exists>c\<in>set (js ''!!!''). \<not> is_space c)
   \<and> list_all (\<lambda>c. \<not> lower_alnum c) (toLowerCase (js ''!!!''))
   \<and> trim (js ''!!!'') \<noteq> []
   \<and> tokenize toLowerCase (js ''!!!'') = []
   \<and> search toLowerCase demo_engine (js ''!!!'') 10 = []"
proof -
  have a: "\<exists>c\<in>set (js ''!!!''). \<not> is_space c"
    by (simp add: js_def is_space_def)
  have b: "\<forall>c\<in>set (toLowerCase (js ''!!!'')). \<not> lower_alnum c"
    by (simp add: js_def toLowerCase_def lower_unit_def lower_alnum_def)
  from no_tokens_no_results [of "js ''!!!''" toLowerCase demo_engine 10] a b
  show ?thesis by (simp only: list_all_iff) blast
qed

end
